theory Spec2Isabelle
  imports Main "HOL-Library.Sublist"
begin

section \<open>JavaScript strings\<close>

text \<open>
  A JavaScript string is modelled as a \<open>string\<close>, one \<open>char\<close> per code unit; the code
  units that fit a \<open>char\<close> are those below 256. \<open>String.prototype.trim\<close> removes white space
  and line terminators at both ends; among the code units below 256 these are TAB, LF, VT,
  FF, CR, SPACE and NBSP.
\<close>

definition is_space :: "char \<Rightarrow> bool" where
  "is_space c = (c \<in> {CHR 0x09, CHR 0x0A, CHR 0x0B, CHR 0x0C, CHR 0x0D, CHR 0x20, CHR 0xA0})"

definition trim :: "string \<Rightarrow> string" where
  "trim s = rev (dropWhile is_space (rev (dropWhile is_space s)))"

text \<open>\<open>s.split(sep)\<close> for a separator of one code unit: never the empty array.\<close>

fun js_split :: "char \<Rightarrow> string \<Rightarrow> string list" where
  "js_split sep [] = [[]]"
| "js_split sep (c # cs) =
     (if c = sep then [] # js_split sep cs
      else (case js_split sep cs of
              [] \<Rightarrow> [[c]]
            | w # ws \<Rightarrow> (c # w) # ws))"

text \<open>
  \<open>s.replace(pat, rep)\<close> with a string pattern: only the first occurrence of \<open>pat\<close> is
  replaced, wherever it is. (The source only passes the replacement \<open>""\<close>, which has none of
  the \<open>$\<close> patterns.)
\<close>

fun js_replace :: "string \<Rightarrow> string \<Rightarrow> string \<Rightarrow> string" where
  "js_replace pat rep [] = (if pat = [] then rep else [])"
| "js_replace pat rep (c # cs) =
     (if prefix pat (c # cs) then rep @ drop (length pat) (c # cs)
      else c # js_replace pat rep cs)"

text \<open>\<open>[...new Set(xs)]\<close>: a \<open>Set\<close> keeps the first occurrence of each value, in insertion order.\<close>

fun js_set :: "'a list \<Rightarrow> 'a list" where
  "js_set [] = []"
| "js_set (x # xs) = x # js_set (filter (\<lambda>y. y \<noteq> x) xs)"

text \<open>A number in a template literal: its decimal digits.\<close>

definition digit :: "nat \<Rightarrow> char" where
  "digit d = ''0123456789'' ! d"

fun string_of_nat :: "nat \<Rightarrow> string" where
  "string_of_nat n =
     (if n < 10 then [digit n] else string_of_nat (n div 10) @ [digit (n mod 10)])"

declare string_of_nat.simps [simp del]

section \<open>Data\<close>

text \<open>
  An input record is the object \<open>csv-parser\<close> builds for one row: a column name is looked up
  with \<open>rec name\<close>, and \<open>None\<close> is JavaScript's \<open>undefined\<close> (no such column in the row).
  A row handed to \<open>stringify\<close> is an object literal: its keys in the order they are written,
  each with a string or \<open>undefined\<close>.
\<close>

type_synonym website_row = "string \<Rightarrow> string option"

type_synonym csv_row = "(string \<times> string option) list"

text \<open>
  The matched output file is the sequence of what was written to it: the header text, then
  the batches of rows given to \<open>stringify(rows, {header: false})\<close>. The serialisation of a
  batch is \<open>csv-stringify\<close>'s and is left to it. The unmatched output file is its text;
  \<open>None\<close> while the file does not exist (only \<open>appendFileSync\<close> creates it).
\<close>

datatype chunk = Text string | Rows "csv_row list"

datatype browser_call = NewPage | SetUserAgent | Goto string | Evaluate | PageClose

text \<open>
  The value a call rejects with, as far as the program looks at it: the \<open>catch\<close> of
  \<open>scrapeEmails\<close> reads its \<open>message\<close> property, which can be read on every value (an
  \<open>Error\<close> object, as a rule) but \<open>undefined\<close> and \<open>null\<close>, where reading it throws a
  \<open>TypeError\<close>.
\<close>

datatype rejection = HasMessage | Nullish

datatype error = InvalidURL string | PageError rejection | MessageOfNullish

text \<open>
  What one page of the browser does, call by call: whether \<open>browser.newPage()\<close>,
  \<open>page.setUserAgent\<close>, \<open>page.goto\<close> and \<open>page.close()\<close> resolve or reject, and what
  \<open>page.evaluate\<close> finds: the \<open>href\<close> of every element matching \<open>a[href^='mailto:']\<close>, in
  document order, or \<open>None\<close> when the evaluation rejects. \<open>rejection\<close> is the value that
  the rejecting call rejects with; one value is enough, since at most one rejection reaches
  the outer \<open>catch\<close>, and the \<open>catch\<close> of the navigation does not bind the value of a
  rejected \<open>page.goto\<close>.
\<close>

record page =
  newPage_ok :: bool
  setUserAgent_ok :: bool
  goto_ok :: bool
  mailto_hrefs :: "string list option"
  close_ok :: bool
  rejection :: rejection

text \<open>
  Everything outside the program. \<open>url_hostname site\<close> is \<open>new URL(site).hostname\<close> and
  \<open>url_href path base\<close> is \<open>new URL(path, base).href\<close>, both \<open>None\<close> when the constructor
  throws its \<open>TypeError\<close>. \<open>browse n url\<close> is the behaviour of the page opened after \<open>n\<close>
  earlier ones, when it is sent to \<open>url\<close>. The \<open>/stop\<close> handler can only run while the run
  awaits: \<open>stop_at_launch\<close> says that it runs while the input is read and the browser is
  launched, \<open>stop_during i\<close> that it runs while the probes of record \<open>i\<close> are awaited.
  Reading the input, the file system and the launch and close of the browser are taken to
  work.
\<close>

record world =
  url_hostname :: "string \<Rightarrow> string option"
  url_href :: "string \<Rightarrow> string \<Rightarrow> string option"
  browse :: "nat \<Rightarrow> string \<Rightarrow> page"
  stop_at_launch :: bool
  stop_during :: "nat \<Rightarrow> bool"

text \<open>
  The mutable state: the flag \<open>isScraping\<close>, the contents of the files named by
  \<open>lastOutputFile\<close> and \<open>lastNotFoundFile\<close>, the messages given to \<open>sendProgress\<close> and the
  calls made on the browser, both oldest first.
\<close>

record state =
  isScraping :: bool
  outputFile :: "chunk list"
  notFoundFile :: "string option"
  progress :: "string list"
  browser_log :: "browser_call list"

section \<open>Writing the outputs\<close>

definition sendProgress :: "string \<Rightarrow> state \<Rightarrow> state" where
  "sendProgress message s = s\<lparr>progress := progress s @ [message]\<rparr>"

definition cleanEmail :: "string \<Rightarrow> string" where
  "cleanEmail email = trim (js_split (CHR ''?'') email ! 0)"

definition cleanedEmails :: "string list \<Rightarrow> string list" where
  "cleanedEmails emails = filter (\<lambda>email. CHR ''@'' \<in> set email) (map cleanEmail emails)"

text \<open>\<open>v || d\<close> for a string or \<open>undefined\<close> \<open>v\<close>: \<open>undefined\<close> and \<open>""\<close> are falsy.\<close>

definition js_or :: "string option \<Rightarrow> string \<Rightarrow> string option" where
  "js_or v d = (case v of None \<Rightarrow> Some d | Some x \<Rightarrow> if x = [] then Some d else Some x)"

definition csvRows :: "website_row \<Rightarrow> string list \<Rightarrow> csv_row list" where
  "csvRows rec emails =
     map (\<lambda>email.
            [(''Business Name'', rec ''Business Name''),
             (''Category'', rec ''Category''),
             (''Address'', js_or (rec ''Address'') ''No''),
             (''Postal Code'', rec ''Postal Code''),
             (''Phone Number'', rec ''Phone Number''),
             (''Website'', rec ''Website''),
             (''Email'', Some email)])
         (cleanedEmails emails)"

definition writeEmailToCSV :: "chunk list \<Rightarrow> website_row \<Rightarrow> string list \<Rightarrow> chunk list" where
  "writeEmailToCSV file rec emails =
     (if length (cleanedEmails emails) > 0 then file @ [Rows (csvRows rec emails)] else file)"

definition writeNotFoundDomain :: "string option \<Rightarrow> string \<Rightarrow> string option" where
  "writeNotFoundDomain file domain =
     Some ((case file of None \<Rightarrow> [] | Some text \<Rightarrow> text) @ domain @ [CHR 0x0A])"

section \<open>Probing\<close>

datatype completion = Normal | Return "string list" | Throw error

definition call :: "browser_call \<Rightarrow> state \<Rightarrow> state" where
  "call c s = s\<lparr>browser_log := browser_log s @ [c]\<rparr>"

definition pages_opened :: "state \<Rightarrow> nat" where
  "pages_opened s = length (filter (\<lambda>c. c = NewPage) (browser_log s))"

text \<open>
  The \<open>try\<close> block of \<open>scrapeEmails\<close>: how it completes, the value of the variable
  \<open>emails\<close> at that moment, and the state.
\<close>

definition scrapeEmails_try :: "page \<Rightarrow> string \<Rightarrow> state \<Rightarrow> completion \<times> string list \<times> state" where
  "scrapeEmails_try p url s0 =
     (let emails = [];
          s1 = call NewPage s0 in
      if \<not> newPage_ok p then (Throw (PageError (rejection p)), emails, s1)
      else
        (let s2 = call SetUserAgent s1 in
         if \<not> setUserAgent_ok p then (Throw (PageError (rejection p)), emails, s2)
         else
           (let s3 = call (Goto url) s2 in
            if \<not> goto_ok p then
              (let s4 = call PageClose s3 in
               if \<not> close_ok p then (Throw (PageError (rejection p)), emails, s4)
               else (Return [], emails, s4))
            else
              (let s4 = call Evaluate s3 in
               case mailto_hrefs p of
                 None \<Rightarrow> (Throw (PageError (rejection p)), emails, s4)
               | Some hrefs \<Rightarrow>
                   (let mailtoEmails = map (\<lambda>href. trim (js_replace ''mailto:'' '''' href)) hrefs;
                        emails = js_set mailtoEmails;
                        s5 = call PageClose s4 in
                    if \<not> close_ok p then (Throw (PageError (rejection p)), emails, s5)
                    else (Normal, emails, s5))))))"

text \<open>
  \<open>scrapeEmails\<close>: the \<open>try\<close> block, its \<open>catch\<close> and the \<open>return emails\<close> after both.
  The \<open>catch\<close> logs \<open>error.message\<close>: on \<open>undefined\<close> or \<open>null\<close> this read throws, out of
  the \<open>catch\<close> and so out of the function.
\<close>

definition scrapeEmails :: "world \<Rightarrow> string \<Rightarrow> state \<Rightarrow> (error + string list) \<times> state" where
  "scrapeEmails w url s =
     (case scrapeEmails_try (browse w (pages_opened s) url) url s of
        (Return v, emails, s') \<Rightarrow> (Inr v, s')
      | (Throw e, emails, s') \<Rightarrow>
          (case e of
             PageError Nullish \<Rightarrow> (Inl MessageOfNullish, s')
           | _ \<Rightarrow> (Inr emails, s'))
      | (Normal, emails, s') \<Rightarrow> (Inr emails, s'))"

definition contactPaths :: "string list" where
  "contactPaths =
     [''/contact'', ''/contactus'', ''/contact-us'', ''/support'', ''/help'',
      ''/customer-service'', ''/get-in-touch'', ''/reach-us'', ''/about'', ''/about-us'']"

text \<open>The \<open>for\<close> loop of \<open>scrapeContactPages\<close> over the paths still to try.\<close>

fun contact_loop :: "world \<Rightarrow> string \<Rightarrow> string list \<Rightarrow> state \<Rightarrow> (error + string list) \<times> state" where
  "contact_loop w mainUrl [] s = (Inr [], s)"
| "contact_loop w mainUrl (path # paths) s =
     (case url_href w path mainUrl of
        None \<Rightarrow> (Inl (InvalidURL mainUrl), s)
      | Some href \<Rightarrow>
          (case scrapeEmails w href s of
             (Inl e, s') \<Rightarrow> (Inl e, s')
           | (Inr emails, s') \<Rightarrow>
               if length emails > 0 then (Inr emails, s')
               else contact_loop w mainUrl paths s'))"

definition scrapeContactPages :: "world \<Rightarrow> string \<Rightarrow> state \<Rightarrow> (error + string list) \<times> state" where
  "scrapeContactPages w mainUrl s = contact_loop w mainUrl contactPaths s"

section \<open>The run\<close>

text \<open>The handler of \<open>POST /stop\<close>.\<close>

definition stop_request :: "state \<Rightarrow> state" where
  "stop_request s = sendProgress ''Scraping stopped by user.'' (s\<lparr>isScraping := False\<rparr>)"

text \<open>\<open>record["Website"]?.trim()\<close>, with \<open>None\<close> for a falsy value (\<open>undefined\<close> or \<open>""\<close>).\<close>

definition site_of :: "website_row \<Rightarrow> string option" where
  "site_of rec =
     (case rec ''Website'' of
        None \<Rightarrow> None
      | Some v \<Rightarrow> if trim v = [] then None else Some (trim v))"

definition progress_message :: "string \<Rightarrow> nat \<Rightarrow> nat \<Rightarrow> string" where
  "progress_message site i len =
     ''Scraping: '' @ site @ '' ('' @ string_of_nat (i + 1) @ ''/'' @ string_of_nat len @ '')''"

text \<open>
  The two probing statements of the loop body: the main page, then the contact pages when
  the main page gave nothing. A stop request handled during these awaits runs here.
\<close>

definition probe_site :: "world \<Rightarrow> nat \<Rightarrow> string \<Rightarrow> state \<Rightarrow> (error + string list) \<times> state" where
  "probe_site w i site s =
     (case scrapeEmails w site s of
        (Inl e, s1) \<Rightarrow> (Inl e, s1)
      | (Inr emails, s1) \<Rightarrow>
          (let s2 = (if stop_during w i then stop_request s1 else s1) in
           if \<not> length emails > 0 then scrapeContactPages w site s2
           else (Inr emails, s2)))"

text \<open>The body of the loop of \<open>scrapeWebsites\<close> after the check of the flag.\<close>

definition scrape_record :: "world \<Rightarrow> nat \<Rightarrow> nat \<Rightarrow> website_row \<Rightarrow> state \<Rightarrow> error option \<times> state" where
  "scrape_record w len i rec s =
     (case site_of rec of
        None \<Rightarrow> (None, s)
      | Some site \<Rightarrow>
          (case url_hostname w site of
             None \<Rightarrow> (Some (InvalidURL site), s)
           | Some hostname \<Rightarrow>
               (let domain = js_replace ''www.'' '''' hostname;
                    s1 = sendProgress (progress_message site i len) s in
                case probe_site w i site s1 of
                  (Inl e, s2) \<Rightarrow> (Some e, s2)
                | (Inr emails, s2) \<Rightarrow>
                    if length emails > 0
                    then (None, s2\<lparr>outputFile := writeEmailToCSV (outputFile s2) rec emails\<rparr>)
                    else (None, s2\<lparr>notFoundFile := writeNotFoundDomain (notFoundFile s2) domain\<rparr>))))"

text \<open>
  The loop of \<open>scrapeWebsites\<close>, at index \<open>i\<close> of \<open>len\<close> records, over the records from
  \<open>i\<close> on.
\<close>

fun scrape_loop :: "world \<Rightarrow> nat \<Rightarrow> nat \<Rightarrow> website_row list \<Rightarrow> state \<Rightarrow> error option \<times> state" where
  "scrape_loop w len i [] s = (None, s)"
| "scrape_loop w len i (rec # recs) s =
     (if \<not> isScraping s then (None, s)
      else
        (case scrape_record w len i rec s of
           (Some e, s') \<Rightarrow> (Some e, s')
         | (None, s') \<Rightarrow> scrape_loop w len (Suc i) recs s'))"

definition header :: string where
  "header = ''Business Name,Category,Address,Postal Code,Phone Number,Website,Email'' @ [CHR 0x0A]"

text \<open>
  \<open>scrapeWebsites\<close> up to its loop: the flag is set, the input is read and the browser
  launched (a stop request can be handled meanwhile), the matched output is created with
  its header, and the unmatched output is a new name with no file yet.
\<close>

definition start_run :: "world \<Rightarrow> state \<Rightarrow> state" where
  "start_run w s0 =
     (let s1 = s0\<lparr>isScraping := True\<rparr>;
          s2 = (if stop_at_launch w then stop_request s1 else s1) in
      s2\<lparr>outputFile := [Text header], notFoundFile := None\<rparr>)"

definition scrapeWebsites :: "world \<Rightarrow> website_row list \<Rightarrow> state \<Rightarrow> error option \<times> state" where
  "scrapeWebsites w websites s0 =
     (case scrape_loop w (length websites) 0 websites (start_run w s0) of
        (Some e, s') \<Rightarrow> (Some e, s')
      | (None, s') \<Rightarrow> (None, sendProgress ''Scraping complete.'' (s'\<lparr>isScraping := False\<rparr>)))"

section \<open>Notions used in the statements\<close>

text \<open>The rows of the matched output, and the addresses in their \<open>Email\<close> column.\<close>

definition rows_of :: "chunk list \<Rightarrow> csv_row list" where
  "rows_of file = concat (map (\<lambda>c. case c of Text t \<Rightarrow> [] | Rows rows \<Rightarrow> rows) file)"

definition written_addresses :: "chunk list \<Rightarrow> string list" where
  "written_addresses file =
     concat (map (\<lambda>row. [a. (k, Some a) \<leftarrow> row, k = ''Email'']) (rows_of file))"

text \<open>
  The body of the loop applied to the records one after the other, the flag not looked at:
  what it is for these records, and no other, to have been processed.
\<close>

fun process_records :: "world \<Rightarrow> nat \<Rightarrow> nat \<Rightarrow> website_row list \<Rightarrow> state \<Rightarrow> error option \<times> state" where
  "process_records w len i [] s = (None, s)"
| "process_records w len i (rec # recs) s =
     (case scrape_record w len i rec s of
        (Some e, s') \<Rightarrow> (Some e, s')
      | (None, s') \<Rightarrow> process_records w len (Suc i) recs s')"

text \<open>The state after the URLs have been probed one after the other, and nothing else done.\<close>

definition probe_seq :: "world \<Rightarrow> string list \<Rightarrow> state \<Rightarrow> state" where
  "probe_seq w hrefs s = fold (\<lambda>href st. snd (scrapeEmails w href st)) hrefs s"

section \<open>Sample inputs\<close>

text \<open>
  A page that loads and holds the given \<open>mailto:\<close> links, one whose navigation fails, and
  a browser that cannot open a page and rejects with \<open>undefined\<close>.
\<close>

definition reachable_page :: "string list \<Rightarrow> page" where
  "reachable_page hrefs =
     \<lparr>newPage_ok = True, setUserAgent_ok = True, goto_ok = True,
      mailto_hrefs = Some hrefs, close_ok = True, rejection = HasMessage\<rparr>"

definition unreachable_page :: page where
  "unreachable_page =
     \<lparr>newPage_ok = True, setUserAgent_ok = True, goto_ok = False,
      mailto_hrefs = None, close_ok = True, rejection = HasMessage\<rparr>"

definition no_page_undefined :: page where
  "no_page_undefined =
     \<lparr>newPage_ok = False, setUserAgent_ok = False, goto_ok = False,
      mailto_hrefs = None, close_ok = False, rejection = Nullish\<rparr>"

text \<open>
  A small world: the URL constructor on strings of the shape \<open>https://host/path\<close> (anything
  else is taken as malformed), the pages listed by URL (any other URL fails to load), and
  stop requests during the records listed.
\<close>

definition stub_hostname :: "string \<Rightarrow> string option" where
  "stub_hostname url =
     (if prefix ''https://'' url then Some (takeWhile (\<lambda>c. c \<noteq> CHR ''/'') (drop 8 url))
      else None)"

definition stub_href :: "string \<Rightarrow> string \<Rightarrow> string option" where
  "stub_href path base =
     (case stub_hostname base of None \<Rightarrow> None | Some h \<Rightarrow> Some (''https://'' @ h @ path))"

definition stub_world :: "(string \<times> string list) list \<Rightarrow> nat list \<Rightarrow> world" where
  "stub_world pages stops =
     \<lparr>url_hostname = stub_hostname, url_href = stub_href,
      browse = (\<lambda>n url. case map_of pages url of
                           None \<Rightarrow> unreachable_page
                         | Some hrefs \<Rightarrow> reachable_page hrefs),
      stop_at_launch = False,
      stop_during = (\<lambda>i. i \<in> set stops)\<rparr>"

definition idle :: state where
  "idle = \<lparr>isScraping = False, outputFile = [], notFoundFile = None, progress = [],
            browser_log = []\<rparr>"

definition business :: "string \<Rightarrow> string \<Rightarrow> string \<Rightarrow> website_row" where
  "business name address site =
     map_of [(''Business Name'', name), (''Category'', ''Shop''), (''Address'', address),
             (''Postal Code'', ''1000''), (''Phone Number'', ''555''), (''Website'', site)]"

section \<open>Evaluation and frame lemmas\<close>

lemmas run_defs = scrapeWebsites_def start_run_def scrape_record_def probe_site_def
  scrapeContactPages_def contactPaths_def scrapeEmails_def scrapeEmails_try_def call_def
  pages_opened_def sendProgress_def stop_request_def site_of_def progress_message_def
  writeEmailToCSV_def writeNotFoundDomain_def csvRows_def cleanedEmails_def cleanEmail_def
  js_or_def trim_def is_space_def header_def digit_def string_of_nat.simps Let_def

lemmas stub_defs = stub_world_def stub_hostname_def stub_href_def reachable_page_def
  unreachable_page_def idle_def business_def

lemma js_split_not_Nil: "js_split sep s \<noteq> []"
  by (induction s) (auto split: list.splits)

lemma js_split_first: "js_split sep s ! 0 = takeWhile (\<lambda>c. c \<noteq> sep) s"
  by (induction s) (auto split: list.splits simp: js_split_not_Nil)

lemma cleanEmail_takeWhile: "cleanEmail e = trim (takeWhile (\<lambda>c. c \<noteq> CHR ''?'') e)"
  by (simp add: cleanEmail_def js_split_first)

lemma trim_Nil_iff: "trim s = [] \<longleftrightarrow> (\<forall>c\<in>set s. is_space c)"
proof -
  have "trim s = [] \<longleftrightarrow> dropWhile is_space (dropWhile is_space s) = []"
    unfolding trim_def by (simp only: rev_is_Nil_conv dropWhile_eq_Nil_conv set_rev)
  then show ?thesis by (simp only: dropWhile_idem dropWhile_eq_Nil_conv)
qed

lemma set_js_set: "set (js_set xs) = set xs"
  by (induction xs rule: js_set.induct) auto

lemma distinct_js_set: "distinct (js_set xs)"
  by (induction xs rule: js_set.induct) (auto simp: set_js_set)

lemma scrapeEmails_try_log:
  "scrapeEmails_try p url s = (c, emails, s') \<Longrightarrow> \<exists>log. s' = s\<lparr>browser_log := browser_log s @ log\<rparr>"
  by (auto simp: scrapeEmails_try_def call_def Let_def split: if_splits option.splits)

lemma scrapeEmails_log:
  "scrapeEmails w url s = (r, s') \<Longrightarrow> \<exists>log. s' = s\<lparr>browser_log := browser_log s @ log\<rparr>"
  by (auto simp: scrapeEmails_def
      split: prod.splits completion.splits error.splits rejection.splits
      dest: scrapeEmails_try_log)

lemma contact_loop_log:
  "contact_loop w mainUrl paths s = (r, s') \<Longrightarrow> \<exists>log. s' = s\<lparr>browser_log := browser_log s @ log\<rparr>"
proof (induction paths arbitrary: s)
  case Nil
  then show ?case by (auto intro: exI[of _ "[]"])
next
  case (Cons path paths)
  show ?case
  proof (cases "url_href w path mainUrl")
    case None
    with Cons.prems show ?thesis by (auto intro: exI[of _ "[]"])
  next
    case (Some href)
    obtain r1 s1 where p: "scrapeEmails w href s = (r1, s1)" by (cases "scrapeEmails w href s")
    then obtain log1 where s1: "s1 = s\<lparr>browser_log := browser_log s @ log1\<rparr>"
      using scrapeEmails_log by blast
    show ?thesis
    proof (cases r1)
      case (Inl e)
      with Cons.prems Some p s1 show ?thesis by auto
    next
      case (Inr emails)
      show ?thesis
      proof (cases "length emails > 0")
        case True
        with Cons.prems Some p s1 Inr show ?thesis by auto
      next
        case False
        with Cons.prems Some p Inr have "contact_loop w mainUrl paths s1 = (r, s')" by simp
        from Cons.IH[OF this] obtain log2 where "s' = s1\<lparr>browser_log := browser_log s1 @ log2\<rparr>" by blast
        with s1 have "s' = s\<lparr>browser_log := browser_log s @ (log1 @ log2)\<rparr>" by simp
        then show ?thesis by blast
      qed
    qed
  qed
qed

section \<open>The Site Prober\<close>

text \<open>
  What \<open>scrapeEmails\<close> does when no call rejects with \<open>undefined\<close> or \<open>null\<close>: it returns
  a list of addresses to its caller. When the navigation fails it calls \<open>page.close()\<close> and
  returns the empty list; when the page loads and is evaluated it returns the extracted
  addresses (the \<open>href\<close> without its first \<open>mailto:\<close>, trimmed) without duplicates, and
  closes the page.
\<close>

lemma scrapeEmails_returns:
  assumes "p = browse w (pages_opened s) url" and "rejection p = HasMessage"
  shows "(\<exists>emails s'. scrapeEmails w url s = (Inr emails, s')) \<and>
    (newPage_ok p \<and> setUserAgent_ok p \<and> \<not> goto_ok p \<longrightarrow>
       scrapeEmails w url s =
         (Inr [], s\<lparr>browser_log := browser_log s @ [NewPage, SetUserAgent, Goto url, PageClose]\<rparr>)) \<and>
    (newPage_ok p \<and> setUserAgent_ok p \<and> goto_ok p \<and> mailto_hrefs p = Some hrefs \<longrightarrow>
       (\<exists>emails. scrapeEmails w url s =
           (Inr emails,
            s\<lparr>browser_log := browser_log s @ [NewPage, SetUserAgent, Goto url, Evaluate, PageClose]\<rparr>) \<and>
          distinct emails \<and>
          set emails = (\<lambda>href. trim (js_replace ''mailto:'' '''' href)) ` set hrefs))"
proof (intro conjI impI)
  show "\<exists>emails s'. scrapeEmails w url s = (Inr emails, s')"
    using assms
    by (auto simp: scrapeEmails_def scrapeEmails_try_def Let_def split: option.splits)
next
  assume "newPage_ok p \<and> setUserAgent_ok p \<and> \<not> goto_ok p"
  with assms show "scrapeEmails w url s =
         (Inr [], s\<lparr>browser_log := browser_log s @ [NewPage, SetUserAgent, Goto url, PageClose]\<rparr>)"
    by (simp add: scrapeEmails_def scrapeEmails_try_def call_def Let_def)
next
  assume "newPage_ok p \<and> setUserAgent_ok p \<and> goto_ok p \<and> mailto_hrefs p = Some hrefs"
  with assms show "\<exists>emails. scrapeEmails w url s =
           (Inr emails,
            s\<lparr>browser_log := browser_log s @ [NewPage, SetUserAgent, Goto url, Evaluate, PageClose]\<rparr>) \<and>
          distinct emails \<and>
          set emails = (\<lambda>href. trim (js_replace ''mailto:'' '''' href)) ` set hrefs"
    by (simp add: scrapeEmails_def scrapeEmails_try_def call_def Let_def distinct_js_set set_js_set)
qed

text \<open>
  \<open>scrapeEmails\<close> fails outward exactly when a call that reaches the outer \<open>catch\<close> rejects
  with \<open>undefined\<close> or \<open>null\<close>: \<open>browser.newPage()\<close>, \<open>page.setUserAgent\<close>,
  \<open>page.evaluate\<close>, or \<open>page.close()\<close> after either outcome of the navigation.
\<close>

lemma scrapeEmails_fails_outward_iff:
  assumes "p = browse w (pages_opened s) url"
  shows "(\<exists>e. fst (scrapeEmails w url s) = Inl e) \<longleftrightarrow>
         rejection p = Nullish \<and>
         (\<not> newPage_ok p \<or> \<not> setUserAgent_ok p \<or> \<not> close_ok p \<or>
          (goto_ok p \<and> mailto_hrefs p = None))"
  using assms
  by (cases "rejection p")
    (auto simp: scrapeEmails_def scrapeEmails_try_def Let_def split: option.splits)

text \<open>
  Claim C8, at a browser whose \<open>newPage()\<close> rejects with \<open>undefined\<close>: the outer \<open>catch\<close> of
  \<open>scrapeEmails\<close> is entered and reads \<open>error.message\<close>, which throws, so that
  \<open>scrapeEmails\<close> returns no list and fails to its caller; and the run that called it ends
  with this error, without \<open>Scraping complete.\<close>.
\<close>

theorem scrapeEmails_fails_outward_on_undefined:
  "scrapeEmails ((stub_world [] [])\<lparr>browse := \<lambda>n url. no_page_undefined\<rparr>) ''https://a.io'' idle =
     (Inl MessageOfNullish, idle\<lparr>browser_log := [NewPage]\<rparr>) \<and>
   scrapeWebsites ((stub_world [] [])\<lparr>browse := \<lambda>n url. no_page_undefined\<rparr>)
     [business ''A'' ''1 Main St'' ''https://a.io''] idle =
     (Some MessageOfNullish,
      \<lparr>isScraping = True, outputFile = [Text header], notFoundFile = None,
       progress = [''Scraping: https://a.io (1/1)''], browser_log = [NewPage]\<rparr>)"
  by (simp add: stub_defs no_page_undefined_def run_defs)

section \<open>The loop body\<close>

lemma stop_request_files:
  "outputFile (stop_request s) = outputFile s" "notFoundFile (stop_request s) = notFoundFile s"
  "browser_log (stop_request s) = browser_log s" "isScraping (stop_request s) = False"
  by (simp_all add: stop_request_def sendProgress_def)

lemma probe_site_frame:
  assumes "probe_site w i site s = (r, s')"
  shows "outputFile s' = outputFile s" and "notFoundFile s' = notFoundFile s"
    and "\<not> stop_during w i \<Longrightarrow> isScraping s' = isScraping s"
    and "\<not> stop_during w i \<Longrightarrow> progress s' = progress s"
proof -
  obtain r1 s1 where p: "scrapeEmails w site s = (r1, s1)" by (cases "scrapeEmails w site s")
  then obtain log1 where s1: "s1 = s\<lparr>browser_log := browser_log s @ log1\<rparr>"
    using scrapeEmails_log by blast
  define s2 where "s2 = (if stop_during w i then stop_request s1 else s1)"
  have s2: "outputFile s2 = outputFile s" "notFoundFile s2 = notFoundFile s"
    "\<not> stop_during w i \<Longrightarrow> isScraping s2 = isScraping s"
    "\<not> stop_during w i \<Longrightarrow> progress s2 = progress s"
    by (simp_all add: s2_def s1 stop_request_files)
  have "s' = s1 \<or> s' = s2 \<or> (\<exists>log. s' = s2\<lparr>browser_log := browser_log s2 @ log\<rparr>)"
    using assms p contact_loop_log[of w site contactPaths s2 r s']
    by (cases r1) (auto simp: probe_site_def scrapeContactPages_def s2_def Let_def split: if_splits)
  then show "outputFile s' = outputFile s" and "notFoundFile s' = notFoundFile s"
    and "\<not> stop_during w i \<Longrightarrow> isScraping s' = isScraping s"
    and "\<not> stop_during w i \<Longrightarrow> progress s' = progress s"
    using s2 s1 by auto
qed

lemma scrape_loop_stopped: "\<not> isScraping s \<Longrightarrow> scrape_loop w len i recs s = (None, s)"
  by (cases recs) simp_all

text \<open>
  Claim C7. A record whose \<open>Website\<close> field is missing, or blank once trimmed, is skipped:
  the body of the loop leaves the state as it is (no matched row, no unmatched line, no
  progress event, no probe), and the loop goes on with the next record.
\<close>

theorem blank_website_skipped:
  assumes "rec ''Website'' = None \<or> (\<exists>v. rec ''Website'' = Some v \<and> trim v = [])"
  shows "scrape_record w len i rec s = (None, s) \<and>
         scrape_loop w len i (rec # recs) s = scrape_loop w len (Suc i) recs s"
proof -
  from assms have "site_of rec = None" by (auto simp: site_of_def)
  then have body: "scrape_record w len i rec s = (None, s)" by (simp add: scrape_record_def)
  then have "scrape_loop w len i (rec # recs) s = scrape_loop w len (Suc i) recs s"
    by (simp add: scrape_loop_stopped)
  with body show ?thesis by simp
qed

theorem blank_website_skipped_witness:
  "business ''C'' ''1 Main St'' ''  '' ''Website'' = Some ''  '' \<and> trim ''  '' = [] \<and>
   scrape_record (stub_world [] []) 1 0 (business ''C'' ''1 Main St'' ''  '') (idle\<lparr>isScraping := True\<rparr>)
     = (None, idle\<lparr>isScraping := True\<rparr>) \<and>
   scrape_loop (stub_world [] []) 1 0 [business ''C'' ''1 Main St'' ''  ''] (idle\<lparr>isScraping := True\<rparr>)
     = (None, idle\<lparr>isScraping := True\<rparr>)"
proof -
  have h: "business ''C'' ''1 Main St'' ''  '' ''Website'' = None \<or>
    (\<exists>v. business ''C'' ''1 Main St'' ''  '' ''Website'' = Some v \<and> trim v = [])"
    by (simp add: business_def trim_def is_space_def)
  show ?thesis
    using blank_website_skipped[where rec="business ''C'' ''1 Main St'' ''  ''"
        and w="stub_world [] []" and len=1 and i=0 and s="idle\<lparr>isScraping := True\<rparr>"
        and recs="[]", OF h]
    by (simp add: business_def trim_def is_space_def)
qed

text \<open>
  Claim C9. When the probes of a record give a non-empty list of addresses, none of which
  contains \<open>@\<close> once cleaned, the record reaches neither output: the matched branch is
  taken, so nothing is appended to the unmatched output, and \<open>writeEmailToCSV\<close> drops
  every address and appends nothing to the matched output.
\<close>

theorem addresses_without_at_reach_neither_output:
  assumes "site_of rec = Some site" and "url_hostname w site = Some hostname"
    and "probe_site w i site (sendProgress (progress_message site i len) s) = (Inr emails, s2)"
    and "emails \<noteq> []" and "\<forall>e\<in>set emails. CHR ''@'' \<notin> set (cleanEmail e)"
  shows "scrape_record w len i rec s = (None, s2) \<and>
         outputFile s2 = outputFile s \<and> notFoundFile s2 = notFoundFile s"
proof -
  have "cleanedEmails emails = []"
    using assms(5) by (simp add: cleanedEmails_def filter_empty_conv)
  then have "writeEmailToCSV (outputFile s2) rec emails = outputFile s2"
    by (simp add: writeEmailToCSV_def)
  with assms(1-4) have "scrape_record w len i rec s = (None, s2)"
    by (simp add: scrape_record_def Let_def)
  moreover have "outputFile s2 = outputFile s" "notFoundFile s2 = notFoundFile s"
    using probe_site_frame(1,2)[OF assms(3)] by (simp_all add: sendProgress_def)
  ultimately show ?thesis by simp
qed

theorem addresses_without_at_reach_neither_output_witness:
  "scrape_record (stub_world [(''https://a.io'', [''mailto:nobody?x=@''])] []) 1 0
     (business ''A'' ''1 Main St'' ''https://a.io'') (idle\<lparr>isScraping := True\<rparr>) =
   (None, \<lparr>isScraping = True, outputFile = [], notFoundFile = None,
      progress = [''Scraping: https://a.io (1/1)''],
      browser_log = [NewPage, SetUserAgent, Goto ''https://a.io'', Evaluate, PageClose]\<rparr>)"
proof -
  let ?w = "stub_world [(''https://a.io'', [''mailto:nobody?x=@''])] []"
  let ?rec = "business ''A'' ''1 Main St'' ''https://a.io''"
  let ?s = "idle\<lparr>isScraping := True\<rparr>"
  let ?s2 = "\<lparr>isScraping = True, outputFile = [], notFoundFile = None,
      progress = [''Scraping: https://a.io (1/1)''],
      browser_log = [NewPage, SetUserAgent, Goto ''https://a.io'', Evaluate, PageClose]\<rparr>"
  have h1: "site_of ?rec = Some ''https://a.io''" by (simp add: stub_defs run_defs)
  have h2: "url_hostname ?w ''https://a.io'' = Some ''a.io''" by (simp add: stub_defs)
  have h3: "probe_site ?w 0 ''https://a.io'' (sendProgress (progress_message ''https://a.io'' 0 1) ?s)
     = (Inr [''nobody?x=@''], ?s2)"
    by (simp add: stub_defs run_defs)
  have h4: "[''nobody?x=@''] \<noteq> []" by simp
  have h5: "\<forall>e\<in>set [''nobody?x=@'']. CHR ''@'' \<notin> set (cleanEmail e)"
    by (simp add: run_defs)
  show ?thesis
    using addresses_without_at_reach_neither_output[OF h1 h2 h3 h4 h5] by simp
qed

section \<open>The matched output\<close>

lemma rows_of_append: "rows_of (f @ g) = rows_of f @ rows_of g"
  by (simp add: rows_of_def)

lemma written_addresses_append:
  "written_addresses (f @ g) = written_addresses f @ written_addresses g"
  by (simp add: written_addresses_def rows_of_append)

lemma case_option_Nil: "(case v of None \<Rightarrow> [] | Some x \<Rightarrow> []) = []"
  by (cases v) simp_all

lemma written_addresses_csvRows:
  "written_addresses [Rows (csvRows rec emails)] = cleanedEmails emails"
  by (simp add: written_addresses_def rows_of_def csvRows_def comp_def case_option_Nil)

lemma written_addresses_writeEmailToCSV:
  "written_addresses (writeEmailToCSV file rec emails) =
     written_addresses file @ cleanedEmails emails"
proof (cases "cleanedEmails emails = []")
  case True
  then show ?thesis by (simp add: writeEmailToCSV_def)
next
  case False
  then show ?thesis
    by (simp add: writeEmailToCSV_def written_addresses_append written_addresses_csvRows)
qed

lemma trim_decomp:
  "\<exists>l r. s = l @ trim s @ r \<and> (\<forall>c\<in>set l. is_space c) \<and> (\<forall>c\<in>set r. is_space c) \<and>
         (trim s = [] \<or> (\<not> is_space (hd (trim s)) \<and> \<not> is_space (last (trim s))))"
proof -
  define l where "l = takeWhile is_space s"
  define t where "t = dropWhile is_space s"
  define r where "r = rev (takeWhile is_space (rev t))"
  have tr: "trim s = rev (dropWhile is_space (rev t))" by (simp add: trim_def t_def)
  have s: "s = l @ t" by (simp add: l_def t_def)
  have "rev (takeWhile is_space (rev t) @ dropWhile is_space (rev t)) = rev (rev t)"
    by (simp only: takeWhile_dropWhile_id)
  then have "rev (dropWhile is_space (rev t)) @ rev (takeWhile is_space (rev t)) = t"
    by (simp only: rev_append rev_rev_ident)
  then have t: "t = trim s @ r" by (simp only: tr r_def)
  have l: "\<forall>c\<in>set l. is_space c" by (auto simp: l_def dest: set_takeWhileD)
  have r: "\<forall>c\<in>set r. is_space c" by (auto simp: r_def dest: set_takeWhileD)
  have ends: "\<not> is_space (hd (trim s)) \<and> \<not> is_space (last (trim s))" if ne: "trim s \<noteq> []"
  proof -
    from ne have d: "dropWhile is_space (rev t) \<noteq> []" by (simp add: tr)
    then have la: "\<not> is_space (hd (dropWhile is_space (rev t)))" by (rule hd_dropWhile)
    have last_eq: "last (trim s) = hd (dropWhile is_space (rev t))"
      using d by (simp add: tr last_rev)
    from d obtain x where x: "x \<in> set (rev t)" "\<not> is_space x" by auto
    then have "last (dropWhile is_space (rev t)) = last (rev t)" by (rule dropWhile_last)
    moreover have tne: "t \<noteq> []" using x by auto
    ultimately have "hd (trim s) = hd t" using d by (simp add: tr hd_rev last_rev)
    moreover have "\<not> is_space (hd t)" using tne unfolding t_def by (rule hd_dropWhile)
    ultimately show ?thesis using la last_eq by simp
  qed
  from s t have "s = l @ trim s @ r" by simp
  with l r ends show ?thesis by blast
qed

lemma at_in_trim: "CHR ''@'' \<in> set (trim s) \<longleftrightarrow> CHR ''@'' \<in> set s"
proof -
  from trim_decomp[of s] obtain l r where s: "s = l @ trim s @ r"
    and l: "\<forall>c\<in>set l. is_space c" and r: "\<forall>c\<in>set r. is_space c" by blast
  have na: "\<not> is_space (CHR ''@'')" by (simp add: is_space_def)
  have "set s = set l \<union> set (trim s) \<union> set r"
    using arg_cong[OF s, of set] by auto
  with l r na show ?thesis by auto
qed

lemma cleanedEmails_filter:
  "cleanedEmails emails =
     map cleanEmail (filter (\<lambda>e. CHR ''@'' \<in> set (takeWhile (\<lambda>c. c \<noteq> CHR ''?'') e)) emails)"
  by (simp add: cleanedEmails_def filter_map comp_def cleanEmail_takeWhile at_in_trim)

lemma cleanEmail_trimmed:
  assumes "CHR ''@'' \<in> set (takeWhile (\<lambda>c. c \<noteq> CHR ''?'') e)"
  shows "\<exists>l r. takeWhile (\<lambda>c. c \<noteq> CHR ''?'') e = l @ cleanEmail e @ r \<and>
           (\<forall>c\<in>set l. is_space c) \<and> (\<forall>c\<in>set r. is_space c) \<and>
           \<not> is_space (hd (cleanEmail e)) \<and> \<not> is_space (last (cleanEmail e))"
proof -
  let ?s = "takeWhile (\<lambda>c. c \<noteq> CHR ''?'') e"
  have "CHR ''@'' \<in> set (trim ?s)" using assms by (simp add: at_in_trim)
  then have "trim ?s \<noteq> []" by auto
  with trim_decomp[of ?s] show ?thesis by (simp add: cleanEmail_takeWhile)
qed

text \<open>
  Claim C3. The addresses that one call of \<open>writeEmailToCSV\<close> adds to the \<open>Email\<close> column
  of the matched output: one for each extracted address that has an \<open>@\<close> before any \<open>?\<close>,
  in their order. Each is the part of the extracted address before its first \<open>?\<close> with
  the white space at its two ends removed: what is cut off on either side is white space
  only (TAB, LF, VT, FF, CR, SPACE, NBSP), and the address neither begins nor ends with
  white space. Each contains \<open>@\<close>; and an extracted address that has no \<open>@\<close> once cleaned
  is not among them.
\<close>

theorem written_addresses_are_cleaned:
  "let W = {CHR 0x09, CHR 0x0A, CHR 0x0B, CHR 0x0C, CHR 0x0D, CHR 0x20, CHR 0xA0} in
   \<exists>new. written_addresses (writeEmailToCSV file rec emails) = written_addresses file @ new \<and>
     list_all2
       (\<lambda>a e. \<exists>l r. takeWhile (\<lambda>c. c \<noteq> CHR ''?'') e = l @ a @ r \<and>
                 set l \<subseteq> W \<and> set r \<subseteq> W \<and> hd a \<notin> W \<and> last a \<notin> W)
       new (filter (\<lambda>e. CHR ''@'' \<in> set (takeWhile (\<lambda>c. c \<noteq> CHR ''?'') e)) emails) \<and>
     (\<forall>a\<in>set new. CHR ''@'' \<in> set a \<and>
        (\<exists>e\<in>set emails. \<exists>l r. takeWhile (\<lambda>c. c \<noteq> CHR ''?'') e = l @ a @ r \<and>
           set l \<subseteq> W \<and> set r \<subseteq> W \<and> hd a \<notin> W \<and> last a \<notin> W)) \<and>
     (\<forall>e\<in>set emails. \<forall>l a r. takeWhile (\<lambda>c. c \<noteq> CHR ''?'') e = l @ a @ r \<and>
        set l \<subseteq> W \<and> set r \<subseteq> W \<and> CHR ''@'' \<notin> set a \<longrightarrow> a \<notin> set new)"
proof -
  define W where "W = {CHR 0x09, CHR 0x0A, CHR 0x0B, CHR 0x0C, CHR 0x0D, CHR 0x20, CHR 0xA0}"
  have W: "\<And>c. c \<in> W \<longleftrightarrow> is_space c" by (simp add: W_def is_space_def)
  define P where "P = (\<lambda>a e. \<exists>l r. takeWhile (\<lambda>c. c \<noteq> CHR ''?'') e = l @ a @ r \<and>
                 set l \<subseteq> W \<and> set r \<subseteq> W \<and> hd a \<notin> W \<and> last a \<notin> W)"
  define kept where "kept = filter (\<lambda>e. CHR ''@'' \<in> set (takeWhile (\<lambda>c. c \<noteq> CHR ''?'') e)) emails"
  have new: "cleanedEmails emails = map cleanEmail kept"
    by (simp add: kept_def cleanedEmails_filter)
  have each: "P (cleanEmail e) e" if "e \<in> set kept" for e
  proof -
    from that have "CHR ''@'' \<in> set (takeWhile (\<lambda>c. c \<noteq> CHR ''?'') e)" by (simp add: kept_def)
    from cleanEmail_trimmed[OF this] show ?thesis
      unfolding P_def by (auto simp: W subset_iff)
  qed
  have at: "CHR ''@'' \<in> set (cleanEmail e)" if "e \<in> set kept" for e
    using that by (simp add: kept_def cleanEmail_takeWhile at_in_trim)
  have c1: "written_addresses (writeEmailToCSV file rec emails) =
      written_addresses file @ map cleanEmail kept"
    by (simp add: written_addresses_writeEmailToCSV new)
  have c2: "list_all2 P (map cleanEmail kept) kept"
    using each by (simp add: list_all2_map1 list_all2_same)
  have c3: "\<forall>a\<in>set (map cleanEmail kept). CHR ''@'' \<in> set a \<and> (\<exists>e\<in>set emails. P a e)"
    using each at by (auto simp: kept_def)
  have c4: "\<forall>e\<in>set emails. \<forall>l a r. takeWhile (\<lambda>c. c \<noteq> CHR ''?'') e = l @ a @ r \<and>
        set l \<subseteq> W \<and> set r \<subseteq> W \<and> CHR ''@'' \<notin> set a \<longrightarrow> a \<notin> set (map cleanEmail kept)"
    using at by auto
  from c1 c2 c3 c4 have "\<exists>new. written_addresses (writeEmailToCSV file rec emails) = written_addresses file @ new \<and>
     list_all2 P new kept \<and>
     (\<forall>a\<in>set new. CHR ''@'' \<in> set a \<and> (\<exists>e\<in>set emails. P a e)) \<and>
     (\<forall>e\<in>set emails. \<forall>l a r. takeWhile (\<lambda>c. c \<noteq> CHR ''?'') e = l @ a @ r \<and>
        set l \<subseteq> W \<and> set r \<subseteq> W \<and> CHR ''@'' \<notin> set a \<longrightarrow> a \<notin> set new)"
    by blast
  then show ?thesis
    unfolding Let_def P_def kept_def W_def .
qed

theorem written_addresses_are_cleaned_witness:
  "written_addresses
      (writeEmailToCSV [Text header] (business ''A'' ''1 Main St'' ''https://a.io'')
         [CHR 0x09 # '' Info@A.example '' @ CHR 0xA0 # CHR 0x0A # ''?subject=hi'', '' nobody '']) =
     [''Info@A.example''] \<and>
   takeWhile (\<lambda>c. c \<noteq> CHR ''?'') (CHR 0x09 # '' Info@A.example '' @ CHR 0xA0 # CHR 0x0A # ''?subject=hi'') =
     [CHR 0x09, CHR 0x20] @ ''Info@A.example'' @ [CHR 0x20, CHR 0xA0, CHR 0x0A] \<and>
   CHR ''@'' \<notin> set (takeWhile (\<lambda>c. c \<noteq> CHR ''?'') '' nobody '')"
proof -
  have none: "written_addresses [Text header] = []"
    by (simp add: written_addresses_def rows_of_def)
  have ev1: "written_addresses
      (writeEmailToCSV [Text header] (business ''A'' ''1 Main St'' ''https://a.io'')
         [CHR 0x09 # '' Info@A.example '' @ CHR 0xA0 # CHR 0x0A # ''?subject=hi'', '' nobody '']) =
     [''Info@A.example'']"
    by (simp add: written_addresses_writeEmailToCSV none cleanedEmails_def cleanEmail_takeWhile
        trim_def is_space_def)
  have ev2: "takeWhile (\<lambda>c. c \<noteq> CHR ''?'') (CHR 0x09 # '' Info@A.example '' @ CHR 0xA0 # CHR 0x0A # ''?subject=hi'') =
     [CHR 0x09, CHR 0x20] @ ''Info@A.example'' @ [CHR 0x20, CHR 0xA0, CHR 0x0A]"
    by simp
  have ev3: "CHR ''@'' \<notin> set (takeWhile (\<lambda>c. c \<noteq> CHR ''?'') '' nobody '')"
    by simp
  show ?thesis
    using written_addresses_are_cleaned[of "[Text header]"
        "business ''A'' ''1 Main St'' ''https://a.io''"
        "[CHR 0x09 # '' Info@A.example '' @ CHR 0xA0 # CHR 0x0A # ''?subject=hi'', '' nobody '']"]
      ev1 ev2 ev3
    by blast
qed

text \<open>
  Claim C10. The duplicates are removed from the raw addresses, before they are cleaned: a
  page with the two links \<open>mailto:a@x?s=1\<close> and \<open>mailto:a@x?s=2\<close> gives two distinct
  raw addresses, both kept by \<open>scrapeEmails\<close>, and the run writes two identical rows for
  the record, both with the address \<open>a@x\<close>.
\<close>

theorem dedup_before_cleaning_duplicates_rows:
  "scrapeEmails (stub_world [(''https://a.io'', [''mailto:a@x?s=1'', ''mailto:a@x?s=2''])] [])
      ''https://a.io'' idle =
     (Inr [''a@x?s=1'', ''a@x?s=2''],
      idle\<lparr>browser_log := [NewPage, SetUserAgent, Goto ''https://a.io'', Evaluate, PageClose]\<rparr>) \<and>
   scrapeWebsites (stub_world [(''https://a.io'', [''mailto:a@x?s=1'', ''mailto:a@x?s=2''])] [])
     [business ''A'' ''1 Main St'' ''https://a.io''] idle =
     (None,
      \<lparr>isScraping = False,
       outputFile =
         [Text header,
          Rows [[(''Business Name'', Some ''A''), (''Category'', Some ''Shop''),
                 (''Address'', Some ''1 Main St''), (''Postal Code'', Some ''1000''),
                 (''Phone Number'', Some ''555''), (''Website'', Some ''https://a.io''),
                 (''Email'', Some ''a@x'')],
                [(''Business Name'', Some ''A''), (''Category'', Some ''Shop''),
                 (''Address'', Some ''1 Main St''), (''Postal Code'', Some ''1000''),
                 (''Phone Number'', Some ''555''), (''Website'', Some ''https://a.io''),
                 (''Email'', Some ''a@x'')]]],
       notFoundFile = None,
       progress = [''Scraping: https://a.io (1/1)'', ''Scraping complete.''],
       browser_log = [NewPage, SetUserAgent, Goto ''https://a.io'', Evaluate, PageClose]\<rparr>)"
proof -
  have "scrapeEmails (stub_world [(''https://a.io'', [''mailto:a@x?s=1'', ''mailto:a@x?s=2''])] [])
      ''https://a.io'' idle =
     (Inr [''a@x?s=1'', ''a@x?s=2''],
      idle\<lparr>browser_log := [NewPage, SetUserAgent, Goto ''https://a.io'', Evaluate, PageClose]\<rparr>)"
    by (simp add: stub_defs run_defs)
  moreover have "scrapeWebsites (stub_world [(''https://a.io'', [''mailto:a@x?s=1'', ''mailto:a@x?s=2''])] [])
     [business ''A'' ''1 Main St'' ''https://a.io''] idle =
     (None,
      \<lparr>isScraping = False,
       outputFile =
         [Text header,
          Rows [[(''Business Name'', Some ''A''), (''Category'', Some ''Shop''),
                 (''Address'', Some ''1 Main St''), (''Postal Code'', Some ''1000''),
                 (''Phone Number'', Some ''555''), (''Website'', Some ''https://a.io''),
                 (''Email'', Some ''a@x'')],
                [(''Business Name'', Some ''A''), (''Category'', Some ''Shop''),
                 (''Address'', Some ''1 Main St''), (''Postal Code'', Some ''1000''),
                 (''Phone Number'', Some ''555''), (''Website'', Some ''https://a.io''),
                 (''Email'', Some ''a@x'')]]],
       notFoundFile = None,
       progress = [''Scraping: https://a.io (1/1)'', ''Scraping complete.''],
       browser_log = [NewPage, SetUserAgent, Goto ''https://a.io'', Evaluate, PageClose]\<rparr>)"
    by (simp add: stub_defs run_defs)
  ultimately show ?thesis by (rule conjI)
qed

text \<open>
  Claim C6, as stated, fails on the \<open>Address\<close> column: a record read with an empty address
  is written with the address \<open>No\<close>.
\<close>

theorem empty_address_is_replaced_counterexample:
  "business ''A'' '''' ''https://a.io'' ''Address'' = Some '''' \<and>
   outputFile (snd (scrapeWebsites (stub_world [(''https://a.io'', [''mailto:i@a.io''])] [])
       [business ''A'' '''' ''https://a.io''] idle)) =
     [Text header,
      Rows [[(''Business Name'', Some ''A''), (''Category'', Some ''Shop''),
             (''Address'', Some ''No''), (''Postal Code'', Some ''1000''),
             (''Phone Number'', Some ''555''), (''Website'', Some ''https://a.io''),
             (''Email'', Some ''i@a.io'')]]]"
  by (simp add: stub_defs run_defs)

text \<open>
  Claim C6, amended. For a record whose probes give a non-empty list of addresses, the body
  of the loop appends one row per cleaned address that contains \<open>@\<close>, in the order of the
  addresses, and nothing to the unmatched output. Each row has the columns Business Name,
  Category, Address, Postal Code, Phone Number, Website, Email in this order, which is the
  order of the header line; it carries the record's Business Name, Category, Postal Code,
  Phone Number and Website as they were read, and the record's Address as it was read
  unless that is missing or empty, in which case the row's Address is \<open>No\<close>.
\<close>

theorem matched_rows_carry_record:
  assumes "site_of rec = Some site" and "url_hostname w site = Some hostname"
    and "probe_site w i site (sendProgress (progress_message site i len) s) = (Inr emails, s2)"
    and "emails \<noteq> []"
  shows "\<exists>s'. scrape_record w len i rec s = (None, s') \<and>
     notFoundFile s' = notFoundFile s \<and>
     rows_of (outputFile s') = rows_of (outputFile s) @
       map (\<lambda>a. [(''Business Name'', rec ''Business Name''),
                  (''Category'', rec ''Category''),
                  (''Address'', if rec ''Address'' = None \<or> rec ''Address'' = Some ''''
                                then Some ''No'' else rec ''Address''),
                  (''Postal Code'', rec ''Postal Code''),
                  (''Phone Number'', rec ''Phone Number''),
                  (''Website'', rec ''Website''),
                  (''Email'', Some a)])
           (filter (\<lambda>a. CHR ''@'' \<in> set a) (map cleanEmail emails)) \<and>
     outputFile (start_run w s0) =
       [Text (''Business Name,Category,Address,Postal Code,Phone Number,Website,Email'' @ [CHR 0x0A])]"
proof -
  let ?s' = "s2\<lparr>outputFile := writeEmailToCSV (outputFile s2) rec emails\<rparr>"
  have run: "scrape_record w len i rec s = (None, ?s')"
    using assms by (simp add: scrape_record_def Let_def)
  have frame: "outputFile s2 = outputFile s" "notFoundFile s2 = notFoundFile s"
    using probe_site_frame(1,2)[OF assms(3)] by (simp_all add: sendProgress_def)
  have addr: "js_or (rec ''Address'') ''No'' =
      (if rec ''Address'' = None \<or> rec ''Address'' = Some '''' then Some ''No'' else rec ''Address'')"
    by (auto simp: js_or_def split: option.splits)
  have "rows_of (writeEmailToCSV (outputFile s) rec emails) =
      rows_of (outputFile s) @ csvRows rec emails"
    by (simp add: writeEmailToCSV_def rows_of_append) (simp add: rows_of_def csvRows_def)
  moreover have "outputFile (start_run w s0) =
      [Text (''Business Name,Category,Address,Postal Code,Phone Number,Website,Email'' @ [CHR 0x0A])]"
    by (simp add: start_run_def header_def Let_def)
  ultimately show ?thesis
    using run frame by (simp add: csvRows_def cleanedEmails_def addr)
qed

theorem matched_rows_carry_record_witness:
  "\<exists>s'. scrape_record (stub_world [(''https://a.io'', [''mailto:i@a.io'', ''mailto:nobody''])] []) 1 0
       (business ''A'' '''' ''https://a.io'') (idle\<lparr>isScraping := True\<rparr>) = (None, s') \<and>
     notFoundFile s' = None \<and>
     rows_of (outputFile s') =
       [[(''Business Name'', Some ''A''), (''Category'', Some ''Shop''),
         (''Address'', Some ''No''), (''Postal Code'', Some ''1000''),
         (''Phone Number'', Some ''555''), (''Website'', Some ''https://a.io''),
         (''Email'', Some ''i@a.io'')]] \<and>
     outputFile (start_run (stub_world [(''https://a.io'', [''mailto:i@a.io'', ''mailto:nobody''])] []) idle) =
       [Text (''Business Name,Category,Address,Postal Code,Phone Number,Website,Email'' @ [CHR 0x0A])]"
proof -
  let ?w = "stub_world [(''https://a.io'', [''mailto:i@a.io'', ''mailto:nobody''])] []"
  let ?rec = "business ''A'' '''' ''https://a.io''"
  let ?s = "idle\<lparr>isScraping := True\<rparr>"
  let ?s2 = "\<lparr>isScraping = True, outputFile = [], notFoundFile = None,
      progress = [''Scraping: https://a.io (1/1)''],
      browser_log = [NewPage, SetUserAgent, Goto ''https://a.io'', Evaluate, PageClose]\<rparr>"
  have h1: "site_of ?rec = Some ''https://a.io''" by (simp add: stub_defs run_defs)
  have h2: "url_hostname ?w ''https://a.io'' = Some ''a.io''" by (simp add: stub_defs)
  have h3: "probe_site ?w 0 ''https://a.io'' (sendProgress (progress_message ''https://a.io'' 0 1) ?s)
     = (Inr [''i@a.io'', ''nobody''], ?s2)"
    by (simp add: stub_defs run_defs)
  have h4: "[''i@a.io'', ''nobody''] \<noteq> []" by simp
  have ev: "filter (\<lambda>a. CHR ''@'' \<in> set a) (map cleanEmail [''i@a.io'', ''nobody'']) = [''i@a.io'']"
    by (simp add: run_defs)
  have r: "rows_of (outputFile ?s) = []" "notFoundFile ?s = None"
    by (simp_all add: rows_of_def idle_def)
  show ?thesis
    using matched_rows_carry_record[OF h1 h2 h3 h4, of idle]
    unfolding ev r by (simp add: business_def)
qed

section \<open>The unmatched output\<close>

text \<open>
  What \<open>hostname.replace("www.", "")\<close> does: a hostname that begins with \<open>www.\<close> loses
  this prefix, and one in which \<open>www.\<close> does not occur is left as it is.
\<close>

lemma js_replace_prefix:
  "prefix pat s \<Longrightarrow> js_replace pat rep s = rep @ drop (length pat) s"
  by (cases s) auto

lemma js_replace_absent:
  "\<forall>ys zs. s \<noteq> ys @ pat @ zs \<Longrightarrow> js_replace pat rep s = s"
proof (induction s)
  case Nil
  then show ?case by (auto dest: spec[of _ "[]"])
next
  case (Cons c cs)
  have np: "\<not> prefix pat (c # cs)"
  proof
    assume "prefix pat (c # cs)"
    then obtain zs where "c # cs = pat @ zs" by (auto simp: prefix_def)
    then have "c # cs = [] @ pat @ zs" by simp
    with Cons.prems show False by blast
  qed
  have "\<forall>ys zs. cs \<noteq> ys @ pat @ zs"
  proof (intro allI notI)
    fix ys zs assume "cs = ys @ pat @ zs"
    then have "c # cs = (c # ys) @ pat @ zs" by simp
    with Cons.prems show False by blast
  qed
  from Cons.IH[OF this] np show ?case by simp
qed

text \<open>
  Claim C5, at a hostname that has \<open>www.\<close> inside it and not at its start: the line
  appended to the unmatched output is the hostname without its first \<open>www.\<close>, here
  \<open>aexample.com\<close> for the hostname \<open>awww.example.com\<close>.
\<close>

theorem www_inside_hostname_is_removed:
  "url_hostname (stub_world [] []) ''https://awww.example.com'' = Some ''awww.example.com'' \<and>
   notFoundFile (snd (scrapeWebsites (stub_world [] [])
       [business ''A'' ''1 Main St'' ''https://awww.example.com''] idle)) =
     Some (''aexample.com'' @ [CHR 0x0A])"
  by (simp add: stub_defs run_defs)

section \<open>Malformed site URLs\<close>

lemma scrape_loop_append_None:
  "scrape_loop w len i xs s = (None, s') \<Longrightarrow>
   scrape_loop w len i (xs @ ys) s = scrape_loop w len (i + length xs) ys s'"
proof (induction xs arbitrary: i s)
  case Nil
  then show ?case by simp
next
  case (Cons x xs)
  show ?case
  proof (cases "isScraping s")
    case False
    with Cons.prems show ?thesis by (simp add: scrape_loop_stopped)
  next
    case True
    obtain e s1 where r: "scrape_record w len i x s = (e, s1)" by (cases "scrape_record w len i x s")
    with True Cons.prems have e: "e = None" and rest: "scrape_loop w len (Suc i) xs s1 = (None, s')"
      by (cases e; simp)+
    from Cons.IH[OF rest] True r e show ?thesis by simp
  qed
qed

text \<open>
  Claim C1, as stated, fails: at a record whose site the URL constructor rejects, the run
  ends with the constructor's error. Nothing is appended to the unmatched output, and the
  record after it is not probed.
\<close>

theorem malformed_url_not_recovered_counterexample:
  "scrapeWebsites (stub_world [(''https://a.io'', [''mailto:i@a.io''])] [])
     [business ''B'' ''2 Side St'' ''not a url'', business ''A'' ''1 Main St'' ''https://a.io''] idle =
   (Some (InvalidURL ''not a url''),
    \<lparr>isScraping = True, outputFile = [Text header], notFoundFile = None, progress = [],
     browser_log = []\<rparr>)"
  by (simp add: stub_defs run_defs)

text \<open>
  Claim C1, amended. When the records before index \<open>i\<close> have been processed and the flag is
  still set, and the URL constructor rejects the trimmed site of record \<open>i\<close>, the run ends
  there with the constructor's error, in the state the earlier records left: nothing is
  written to either output and no progress event is emitted for the record, no later record
  is processed, the flag stays set and \<open>Scraping complete.\<close> is not emitted.
\<close>

theorem malformed_url_aborts_run:
  assumes "i < length websites"
    and "scrape_loop w (length websites) 0 (take i websites) (start_run w s0) = (None, s)"
    and "isScraping s"
    and "site_of (websites ! i) = Some site" and "url_hostname w site = None"
  shows "scrapeWebsites w websites s0 = (Some (InvalidURL site), s)"
proof -
  have split: "websites = take i websites @ websites ! i # drop (Suc i) websites"
    using assms(1) by (simp add: id_take_nth_drop)
  have len: "length (take i websites) = i" using assms(1) by simp
  have body: "scrape_record w (length websites) i (websites ! i) s = (Some (InvalidURL site), s)"
    using assms(4,5) by (simp add: scrape_record_def)
  define n where "n = length websites"
  define pre where "pre = take i websites"
  define rest where "rest = websites ! i # drop (Suc i) websites"
  have "scrape_loop w n 0 (pre @ rest) (start_run w s0) = scrape_loop w n (0 + length pre) rest s"
    using assms(2) unfolding n_def pre_def by (rule scrape_loop_append_None)
  also have "\<dots> = scrape_loop w n i rest s" using len by (simp add: pre_def)
  also have "\<dots> = (Some (InvalidURL site), s)"
    using assms(3) body by (simp add: rest_def n_def)
  finally have "scrape_loop w n 0 websites (start_run w s0) = (Some (InvalidURL site), s)"
    using split by (simp add: pre_def rest_def)
  then show ?thesis by (simp add: scrapeWebsites_def n_def)
qed

theorem malformed_url_aborts_run_witness:
  "scrapeWebsites (stub_world [(''https://a.io'', [''mailto:i@a.io''])] [])
     [business ''A'' ''1 Main St'' ''https://a.io'', business ''B'' ''2 Side St'' ''not a url'',
      business ''C'' ''3 Back St'' ''https://c.io''] idle =
   (Some (InvalidURL ''not a url''),
    \<lparr>isScraping = True,
     outputFile = [Text header,
       Rows [[(''Business Name'', Some ''A''), (''Category'', Some ''Shop''),
         (''Address'', Some ''1 Main St''), (''Postal Code'', Some ''1000''),
         (''Phone Number'', Some ''555''), (''Website'', Some ''https://a.io''),
         (''Email'', Some ''i@a.io'')]]],
     notFoundFile = None,
     progress = [''Scraping: https://a.io (1/3)''],
     browser_log = [NewPage, SetUserAgent, Goto ''https://a.io'', Evaluate, PageClose]\<rparr>)"
proof -
  let ?w = "stub_world [(''https://a.io'', [''mailto:i@a.io''])] []"
  let ?ws = "[business ''A'' ''1 Main St'' ''https://a.io'', business ''B'' ''2 Side St'' ''not a url'',
      business ''C'' ''3 Back St'' ''https://c.io'']"
  let ?s = "\<lparr>isScraping = True,
     outputFile = [Text header,
       Rows [[(''Business Name'', Some ''A''), (''Category'', Some ''Shop''),
         (''Address'', Some ''1 Main St''), (''Postal Code'', Some ''1000''),
         (''Phone Number'', Some ''555''), (''Website'', Some ''https://a.io''),
         (''Email'', Some ''i@a.io'')]]],
     notFoundFile = None,
     progress = [''Scraping: https://a.io (1/3)''],
     browser_log = [NewPage, SetUserAgent, Goto ''https://a.io'', Evaluate, PageClose]\<rparr>"
  have h1: "1 < length ?ws" by simp
  have h2: "scrape_loop ?w (length ?ws) 0 (take 1 ?ws) (start_run ?w idle) = (None, ?s)"
    by (simp add: stub_defs run_defs)
  have h3: "isScraping ?s" by simp
  have h4: "site_of (?ws ! 1) = Some ''not a url''" by (simp add: stub_defs run_defs)
  have h5: "url_hostname ?w ''not a url'' = None" by (simp add: stub_defs)
  show ?thesis by (rule malformed_url_aborts_run[OF h1 h2 h3 h4 h5])
qed

section \<open>The contact-path fallback\<close>

lemma probe_seq_Cons:
  "probe_seq w (h # hs) s = probe_seq w hs (snd (scrapeEmails w h s))"
  by (simp add: probe_seq_def)

lemma probe_seq_Nil: "probe_seq w [] s = s"
  by (simp add: probe_seq_def)

lemma contact_loop_first_success:
  assumes "j < length paths"
    and "map (\<lambda>p. url_href w p mainUrl) (take (Suc j) paths) = map Some hrefs"
    and "\<forall>i<j. fst (scrapeEmails w (hrefs ! i) (probe_seq w (take i hrefs) s)) = Inr []"
    and "fst (scrapeEmails w (hrefs ! j) (probe_seq w (take j hrefs) s)) = Inr emails"
    and "emails \<noteq> []"
  shows "contact_loop w mainUrl paths s = (Inr emails, probe_seq w (take (Suc j) hrefs) s)"
  using assms
proof (induction paths arbitrary: j hrefs s)
  case Nil
  then show ?case by simp
next
  case (Cons path paths)
  from Cons.prems(2) obtain h hs where hrefs: "hrefs = h # hs"
    and h: "url_href w path mainUrl = Some h"
    and hs: "map (\<lambda>p. url_href w p mainUrl) (take j paths) = map Some hs"
    by (cases hrefs) auto
  obtain r1 s1 where p: "scrapeEmails w h s = (r1, s1)" by (cases "scrapeEmails w h s")
  show ?case
  proof (cases j)
    case 0
    with Cons.prems(4,5) hrefs p have "r1 = Inr emails" by (simp add: probe_seq_Nil)
    with Cons.prems(5) h p hrefs 0 show ?thesis
      by (simp add: probe_seq_Cons probe_seq_Nil)
  next
    case (Suc j')
    from Cons.prems(3) Suc hrefs p have r1: "r1 = Inr []"
      by (auto simp: probe_seq_Nil dest: spec[of _ 0])
    have a1: "j' < length paths" using Cons.prems(1) Suc by simp
    have a2: "map (\<lambda>p. url_href w p mainUrl) (take (Suc j') paths) = map Some hs"
      using hs Suc by simp
    have a3: "\<forall>i<j'. fst (scrapeEmails w (hs ! i) (probe_seq w (take i hs) s1)) = Inr []"
    proof (intro allI impI)
      fix i assume "i < j'"
      then have "Suc i < j" using Suc by simp
      with Cons.prems(3) have "fst (scrapeEmails w (hrefs ! Suc i) (probe_seq w (take (Suc i) hrefs) s)) = Inr []"
        by blast
      then show "fst (scrapeEmails w (hs ! i) (probe_seq w (take i hs) s1)) = Inr []"
        using hrefs p by (simp add: probe_seq_Cons)
    qed
    have a4: "fst (scrapeEmails w (hs ! j') (probe_seq w (take j' hs) s1)) = Inr emails"
      using Cons.prems(4) Suc hrefs p by (simp add: probe_seq_Cons)
    have "contact_loop w mainUrl paths s1 = (Inr emails, probe_seq w (take (Suc j') hs) s1)"
      by (rule Cons.IH[OF a1 a2 a3 a4 Cons.prems(5)])
    then show ?thesis
      using h p r1 hrefs Suc by (simp add: probe_seq_Cons)
  qed
qed

lemma contact_loop_all_empty:
  assumes "map (\<lambda>p. url_href w p mainUrl) paths = map Some hrefs"
    and "\<forall>i<length paths. fst (scrapeEmails w (hrefs ! i) (probe_seq w (take i hrefs) s)) = Inr []"
  shows "contact_loop w mainUrl paths s = (Inr [], probe_seq w hrefs s)"
  using assms
proof (induction paths arbitrary: hrefs s)
  case Nil
  then show ?case by (simp add: probe_seq_Nil)
next
  case (Cons path paths)
  from Cons.prems(1) obtain h hs where hrefs: "hrefs = h # hs"
    and h: "url_href w path mainUrl = Some h"
    and hs: "map (\<lambda>p. url_href w p mainUrl) paths = map Some hs"
    by (cases hrefs) auto
  obtain r1 s1 where p: "scrapeEmails w h s = (r1, s1)" by (cases "scrapeEmails w h s")
  from Cons.prems(2) hrefs p have r1: "r1 = Inr []"
    by (auto simp: probe_seq_Nil dest: spec[of _ 0])
  have a2: "\<forall>i<length paths. fst (scrapeEmails w (hs ! i) (probe_seq w (take i hs) s1)) = Inr []"
  proof (intro allI impI)
    fix i assume "i < length paths"
    then have "Suc i < length (path # paths)" by simp
    with Cons.prems(2) have "fst (scrapeEmails w (hrefs ! Suc i) (probe_seq w (take (Suc i) hrefs) s)) = Inr []"
      by blast
    then show "fst (scrapeEmails w (hs ! i) (probe_seq w (take i hs) s1)) = Inr []"
      using hrefs p by (simp add: probe_seq_Cons)
  qed
  have "contact_loop w mainUrl paths s1 = (Inr [], probe_seq w hs s1)"
    by (rule Cons.IH[OF hs a2])
  then show ?case using h p r1 hrefs by (simp add: probe_seq_Cons)
qed

text \<open>
  Claim C4. \<open>scrapeContactPages\<close> probes the ten paths /contact, /contactus, /contact-us,
  /support, /help, /customer-service, /get-in-touch, /reach-us, /about and /about-us,
  resolved against the base URL, in this order. When path \<open>j\<close> is the first whose probe
  gives a non-empty list, that list is returned and the state is the one after the probes
  of the paths up to \<open>j\<close>, and of no other; when every probe gives the empty list, the
  empty list is returned after the ten probes.
\<close>

theorem contact_pages_first_success_wins:
  assumes "map (\<lambda>path. url_href w path mainUrl)
             [''/contact'', ''/contactus'', ''/contact-us'', ''/support'', ''/help'',
              ''/customer-service'', ''/get-in-touch'', ''/reach-us'', ''/about'', ''/about-us'']
           = map Some hrefs"
  shows "(j < 10 \<and>
          (\<forall>i<j. fst (scrapeEmails w (hrefs ! i) (probe_seq w (take i hrefs) s)) = Inr []) \<and>
          fst (scrapeEmails w (hrefs ! j) (probe_seq w (take j hrefs) s)) = Inr emails \<and>
          emails \<noteq> [] \<longrightarrow>
          scrapeContactPages w mainUrl s = (Inr emails, probe_seq w (take (Suc j) hrefs) s)) \<and>
         ((\<forall>i<10. fst (scrapeEmails w (hrefs ! i) (probe_seq w (take i hrefs) s)) = Inr []) \<longrightarrow>
          scrapeContactPages w mainUrl s = (Inr [], probe_seq w hrefs s))"
proof (intro conjI impI)
  assume a: "j < 10 \<and>
          (\<forall>i<j. fst (scrapeEmails w (hrefs ! i) (probe_seq w (take i hrefs) s)) = Inr []) \<and>
          fst (scrapeEmails w (hrefs ! j) (probe_seq w (take j hrefs) s)) = Inr emails \<and>
          emails \<noteq> []"
  have len: "length contactPaths = 10" by (simp add: contactPaths_def)
  have all: "map (\<lambda>path. url_href w path mainUrl) contactPaths = map Some hrefs"
    using assms by (simp add: contactPaths_def)
  have lh: "length hrefs = 10" using arg_cong[OF all, of length] len by simp
  have "map (\<lambda>path. url_href w path mainUrl) (take (Suc j) contactPaths) = map Some (take (Suc j) hrefs)"
    using arg_cong[OF all, of "take (Suc j)"] by (simp add: take_map)
  moreover have "\<And>i. i \<le> j \<Longrightarrow> take (Suc j) hrefs ! i = hrefs ! i" by simp
  moreover have "\<And>i. i \<le> j \<Longrightarrow> take i (take (Suc j) hrefs) = take i hrefs" by (simp add: min_def)
  ultimately have "contact_loop w mainUrl contactPaths s =
      (Inr emails, probe_seq w (take (Suc j) (take (Suc j) hrefs)) s)"
    using a len by (intro contact_loop_first_success) auto
  then show "scrapeContactPages w mainUrl s = (Inr emails, probe_seq w (take (Suc j) hrefs) s)"
    by (simp add: scrapeContactPages_def)
next
  assume a: "\<forall>i<10. fst (scrapeEmails w (hrefs ! i) (probe_seq w (take i hrefs) s)) = Inr []"
  have len: "length contactPaths = 10" by (simp add: contactPaths_def)
  have all: "map (\<lambda>path. url_href w path mainUrl) contactPaths = map Some hrefs"
    using assms by (simp add: contactPaths_def)
  show "scrapeContactPages w mainUrl s = (Inr [], probe_seq w hrefs s)"
    unfolding scrapeContactPages_def
    using all a len by (intro contact_loop_all_empty) auto
qed


theorem contact_pages_first_success_wins_witness:
  "scrapeContactPages (stub_world [(''https://a.io/contact-us'', [''mailto:c@a.io''])] [])
     ''https://a.io'' idle =
     (Inr [''c@a.io''],
      idle\<lparr>browser_log :=
        [NewPage, SetUserAgent, Goto ''https://a.io/contact'', PageClose,
         NewPage, SetUserAgent, Goto ''https://a.io/contactus'', PageClose,
         NewPage, SetUserAgent, Goto ''https://a.io/contact-us'', Evaluate, PageClose]\<rparr>) \<and>
   fst (scrapeContactPages (stub_world [] []) ''https://a.io'' idle) = Inr []"
proof -
  let ?w = "stub_world [(''https://a.io/contact-us'', [''mailto:c@a.io''])] []"
  let ?v = "stub_world [] []"
  let ?hrefs = "[''https://a.io/contact'', ''https://a.io/contactus'', ''https://a.io/contact-us'',
     ''https://a.io/support'', ''https://a.io/help'', ''https://a.io/customer-service'',
     ''https://a.io/get-in-touch'', ''https://a.io/reach-us'', ''https://a.io/about'',
     ''https://a.io/about-us'']"
  have h: "map (\<lambda>path. url_href ?w path ''https://a.io'')
             [''/contact'', ''/contactus'', ''/contact-us'', ''/support'', ''/help'',
              ''/customer-service'', ''/get-in-touch'', ''/reach-us'', ''/about'', ''/about-us'']
           = map Some ?hrefs"
    by (simp add: stub_defs)
  have h0: "map (\<lambda>path. url_href ?v path ''https://a.io'')
             [''/contact'', ''/contactus'', ''/contact-us'', ''/support'', ''/help'',
              ''/customer-service'', ''/get-in-touch'', ''/reach-us'', ''/about'', ''/about-us'']
           = map Some ?hrefs"
    by (simp add: stub_defs)
  have a1: "(2::nat) < 10" by simp
  have a2: "\<forall>i<2. fst (scrapeEmails ?w (?hrefs ! i) (probe_seq ?w (take i ?hrefs) idle)) = Inr []"
    by (simp only: eval_nat_numeral All_less_Suc) (simp add: probe_seq_def stub_defs run_defs)
  have a3: "fst (scrapeEmails ?w (?hrefs ! 2) (probe_seq ?w (take 2 ?hrefs) idle)) = Inr [''c@a.io'']"
    by (simp only: eval_nat_numeral) (simp add: probe_seq_def stub_defs run_defs)
  have a4: "[''c@a.io''] \<noteq> []" by simp
  have b: "\<forall>i<10. fst (scrapeEmails ?v (?hrefs ! i) (probe_seq ?v (take i ?hrefs) idle)) = Inr []"
    by (simp only: eval_nat_numeral All_less_Suc) (simp add: probe_seq_def stub_defs run_defs)
  have e: "probe_seq ?w (take (Suc 2) ?hrefs) idle = idle\<lparr>browser_log :=
        [NewPage, SetUserAgent, Goto ''https://a.io/contact'', PageClose,
         NewPage, SetUserAgent, Goto ''https://a.io/contactus'', PageClose,
         NewPage, SetUserAgent, Goto ''https://a.io/contact-us'', Evaluate, PageClose]\<rparr>"
    by (simp only: eval_nat_numeral) (simp add: probe_seq_def stub_defs run_defs)
  show ?thesis
    using contact_pages_first_success_wins[OF h, of 2 idle "[''c@a.io'']"]
      contact_pages_first_success_wins[OF h0, of 0 idle "[]"]
      a1 a2 a3 a4 b e
    by simp
qed


section \<open>Cancellation\<close>

lemma scrape_record_flag:
  assumes "\<not> stop_during w i" and "scrape_record w len i rec s = (e, s')"
  shows "isScraping s' = isScraping s"
proof (cases "site_of rec")
  case None
  with assms(2) show ?thesis by (simp add: scrape_record_def)
next
  case (Some site)
  show ?thesis
  proof (cases "url_hostname w site")
    case None
    with assms(2) Some show ?thesis by (simp add: scrape_record_def)
  next
    case (Some hostname)
    obtain r s2 where p: "probe_site w i site (sendProgress (progress_message site i len) s) = (r, s2)"
      by (cases "probe_site w i site (sendProgress (progress_message site i len) s)")
    have "isScraping s2 = isScraping s"
      using probe_site_frame(3)[OF p assms(1)] by (simp add: sendProgress_def)
    with assms(2) \<open>site_of rec = Some site\<close> Some p show ?thesis
      by (cases r) (auto simp: scrape_record_def Let_def split: if_splits)
  qed
qed

lemma scrape_loop_process_records:
  assumes "isScraping s"
    and "\<forall>j. i \<le> j \<and> Suc j < i + length recs \<longrightarrow> \<not> stop_during w j"
  shows "scrape_loop w len i recs s = process_records w len i recs s"
  using assms
proof (induction recs arbitrary: i s)
  case Nil
  then show ?case by simp
next
  case (Cons rec recs)
  obtain e s1 where r: "scrape_record w len i rec s = (e, s1)" by (cases "scrape_record w len i rec s")
  show ?case
  proof (cases e)
    case (Some err)
    with Cons.prems(1) r show ?thesis by simp
  next
    case None
    show ?thesis
    proof (cases recs)
      case Nil
      with Cons.prems(1) r None show ?thesis by simp
    next
      case (Cons rec' recs')
      with Cons.prems(2) have "\<not> stop_during w i" by simp
      then have flag: "isScraping s1" using scrape_record_flag[OF _ r] Cons.prems(1) by simp
      have "\<forall>j. Suc i \<le> j \<and> Suc j < Suc i + length recs \<longrightarrow> \<not> stop_during w j"
        using Cons.prems(2) by auto
      from Cons.IH[OF flag this] Cons.prems(1) r None show ?thesis by simp
    qed
  qed
qed

text \<open>
  Claim C2. When no stop request is handled before record \<open>k\<close>, and the flag is false once
  the records \<open>0\<close> to \<open>k\<close> have been processed, the run ends there: the two outputs and the
  calls made on the browser are those of the records \<open>0\<close> to \<open>k\<close> and of no other, the flag
  is false afterwards, and \<open>Scraping complete.\<close> is the last progress event.
\<close>

theorem stop_after_record_ends_run:
  assumes "k < length websites"
    and "\<not> stop_at_launch w" and "\<forall>j<k. \<not> stop_during w j"
    and "process_records w (length websites) 0 (take (Suc k) websites) (start_run w s0) = (None, sk)"
    and "\<not> isScraping sk"
  shows "\<exists>s'. scrapeWebsites w websites s0 = (None, s') \<and>
           outputFile s' = outputFile sk \<and> notFoundFile s' = notFoundFile sk \<and>
           browser_log s' = browser_log sk \<and> \<not> isScraping s' \<and>
           progress s' = progress sk @ [''Scraping complete.'']"
proof -
  define n where "n = length websites"
  define pre where "pre = take (Suc k) websites"
  define rest where "rest = drop (Suc k) websites"
  have lp: "length pre = Suc k" using assms(1) by (simp add: pre_def)
  have start: "isScraping (start_run w s0)" using assms(2) by (simp add: start_run_def)
  have "\<forall>j. 0 \<le> j \<and> Suc j < 0 + length pre \<longrightarrow> \<not> stop_during w j"
    using assms(3) lp by simp
  from scrape_loop_process_records[OF start this]
  have "scrape_loop w n 0 pre (start_run w s0) = (None, sk)"
    using assms(4) by (simp add: pre_def n_def)
  then have "scrape_loop w n 0 (pre @ rest) (start_run w s0) = scrape_loop w n (0 + length pre) rest sk"
    by (rule scrape_loop_append_None)
  also have "\<dots> = (None, sk)" using assms(5) by (simp add: scrape_loop_stopped)
  finally have "scrape_loop w n 0 websites (start_run w s0) = (None, sk)"
    by (simp add: pre_def rest_def)
  then have "scrapeWebsites w websites s0 =
      (None, sendProgress ''Scraping complete.'' (sk\<lparr>isScraping := False\<rparr>))"
    by (simp add: scrapeWebsites_def n_def)
  then show ?thesis by (simp add: sendProgress_def)
qed

theorem stop_after_record_ends_run_witness:
  "\<exists>s'. scrapeWebsites
       (stub_world [(''https://a.io'', [''mailto:i@a.io'']), (''https://c.io'', [''mailto:i@c.io''])] [1])
       [business ''A'' ''1 Main St'' ''https://a.io'', business ''B'' ''2 Side St'' ''https://www.b.io'',
        business ''C'' ''3 Back St'' ''https://c.io''] idle = (None, s') \<and>
     outputFile s' =
       [Text header,
        Rows [[(''Business Name'', Some ''A''), (''Category'', Some ''Shop''),
               (''Address'', Some ''1 Main St''), (''Postal Code'', Some ''1000''),
               (''Phone Number'', Some ''555''), (''Website'', Some ''https://a.io''),
               (''Email'', Some ''i@a.io'')]]] \<and>
     notFoundFile s' = Some (''b.io'' @ [CHR 0x0A]) \<and>
     isScraping s' = False \<and>
     progress s' =
       [''Scraping: https://a.io (1/3)'', ''Scraping: https://www.b.io (2/3)'',
        ''Scraping stopped by user.'', ''Scraping complete.'']"
proof -
  let ?w = "stub_world [(''https://a.io'', [''mailto:i@a.io'']), (''https://c.io'', [''mailto:i@c.io''])] [1]"
  let ?ws = "[business ''A'' ''1 Main St'' ''https://a.io'', business ''B'' ''2 Side St'' ''https://www.b.io'',
        business ''C'' ''3 Back St'' ''https://c.io'']"
  let ?sk = "\<lparr>isScraping = False,
     outputFile = [Text header,
        Rows [[(''Business Name'', Some ''A''), (''Category'', Some ''Shop''),
               (''Address'', Some ''1 Main St''), (''Postal Code'', Some ''1000''),
               (''Phone Number'', Some ''555''), (''Website'', Some ''https://a.io''),
               (''Email'', Some ''i@a.io'')]]],
     notFoundFile = Some (''b.io'' @ [CHR 0x0A]),
     progress = [''Scraping: https://a.io (1/3)'', ''Scraping: https://www.b.io (2/3)'',
        ''Scraping stopped by user.''],
     browser_log =
       [NewPage, SetUserAgent, Goto ''https://a.io'', Evaluate, PageClose,
        NewPage, SetUserAgent, Goto ''https://www.b.io'', PageClose,
        NewPage, SetUserAgent, Goto ''https://www.b.io/contact'', PageClose,
        NewPage, SetUserAgent, Goto ''https://www.b.io/contactus'', PageClose,
        NewPage, SetUserAgent, Goto ''https://www.b.io/contact-us'', PageClose,
        NewPage, SetUserAgent, Goto ''https://www.b.io/support'', PageClose,
        NewPage, SetUserAgent, Goto ''https://www.b.io/help'', PageClose,
        NewPage, SetUserAgent, Goto ''https://www.b.io/customer-service'', PageClose,
        NewPage, SetUserAgent, Goto ''https://www.b.io/get-in-touch'', PageClose,
        NewPage, SetUserAgent, Goto ''https://www.b.io/reach-us'', PageClose,
        NewPage, SetUserAgent, Goto ''https://www.b.io/about'', PageClose,
        NewPage, SetUserAgent, Goto ''https://www.b.io/about-us'', PageClose]\<rparr>"
  have h1: "1 < length ?ws" by simp
  have h2: "\<not> stop_at_launch ?w" by (simp add: stub_defs)
  have h3: "\<forall>j<1. \<not> stop_during ?w j" by (simp add: stub_defs)
  have h4: "process_records ?w (length ?ws) 0 (take (Suc 1) ?ws) (start_run ?w idle) = (None, ?sk)"
    by (simp add: stub_defs run_defs)
  have h5: "\<not> isScraping ?sk" by simp
  from stop_after_record_ends_run[OF h1 h2 h3 h4 h5] obtain s' where
    "scrapeWebsites ?w ?ws idle = (None, s')" "outputFile s' = outputFile ?sk"
    "notFoundFile s' = notFoundFile ?sk" "\<not> isScraping s'"
    "progress s' = progress ?sk @ [''Scraping complete.'']"
    by blast
  then show ?thesis by (intro exI[of _ s']) simp
qed

end
